theory Spec2Isabelle
  imports Main
begin

section \<open>The pool of stacks of \<open>exam/stack_pool.hpp\<close>\<close>

text \<open>
  The class template \<open>stack_pool<T, N>\<close> keeps any number of singly linked stacks in one
  \<open>std::vector<node_t>\<close>. A stack is the index of its first node, index \<open>x\<close> lives in
  slot \<open>x - 1\<close> of the vector, and index \<open>0\<close> (\<open>end()\<close>) is the empty stack.

  The index type \<open>N\<close> is a template parameter, an unsigned integer type (by default
  \<open>std::size_t\<close>). Indices are modelled as \<open>nat\<close>, and a pool carries the number of bits
  of its \<open>N\<close> as \<open>index_bits\<close>. Unsigned arithmetic wraps in two places. The first is
  \<open>static_cast<N>(pool.size())\<close> in \<open>_push\<close>, which keeps the size modulo
  \<open>2 ^ index_bits\<close>. The second is \<open>pool[x - 1]\<close> at \<open>x = 0\<close>: the subscript is
  \<open>SIZE_MAX\<close>, which no vector reaches (its size is at most \<open>max_size()\<close>), so the access
  is outside the storage. \<open>std::vector::operator[]\<close> does not check its subscript; an
  access outside the storage is undefined behaviour, which the model reports as the
  outcome \<open>UndefinedBehaviour\<close>. Allocation is assumed to succeed (\<open>push_back\<close> and
  \<open>reserve\<close> never throw).
\<close>

subsection \<open>Data\<close>

text \<open>\<open>struct node_t { T value; N next; }\<close>\<close>

record 'a node_t =
  node_value :: 'a
  node_next :: nat

text \<open>
  The members of \<open>stack_pool\<close>: the vector \<open>pool\<close>, as the list of its elements together
  with its capacity, and the head \<open>free_nodes\<close> of the list of free nodes. The template
  parameter \<open>N\<close> of the pool is kept as \<open>index_bits\<close>, the number of bits of \<open>N\<close>; no
  operation changes it.
\<close>

record 'a stack_pool =
  pool :: "'a node_t list"
  pool_capacity :: nat
  free_nodes :: nat
  index_bits :: nat

text \<open>
  The ways a call can fail. The source reports no error of its own: \<open>UndefinedBehaviour\<close>
  stands for a subscript outside the vector (or a pool pointer that points to no pool).
  \<open>EmptyStack\<close> is the error the specification names for \<open>pop\<close> on an empty stack; no
  function of the source produces it.
\<close>

datatype failure = EmptyStack | UndefinedBehaviour

subsection \<open>Construction, capacity\<close>

text \<open>
  The default constructor of \<open>stack_pool<T, N>\<close>, for an \<open>N\<close> of \<open>w\<close> bits: an empty
  vector, \<open>free_nodes{end()}\<close>.
\<close>

definition end_index :: nat where
  "end_index = 0"

definition stack_pool_default :: "nat \<Rightarrow> 'a stack_pool" where
  "stack_pool_default w =
     \<lparr>pool = [], pool_capacity = 0, free_nodes = end_index, index_bits = w\<rparr>"

definition new_stack :: "'a stack_pool \<Rightarrow> nat" where
  "new_stack p = end_index"

definition capacity :: "'a stack_pool \<Rightarrow> nat" where
  "capacity p = pool_capacity p"

text \<open>
  \<open>std::vector::reserve\<close>: a request above the capacity reallocates to that capacity,
  any other request does nothing.
\<close>

definition reserve :: "nat \<Rightarrow> 'a stack_pool \<Rightarrow> 'a stack_pool" where
  "reserve n p = (if pool_capacity p < n then p\<lparr>pool_capacity := n\<rparr> else p)"

text \<open>\<open>explicit stack_pool(size_type n) { reserve(n); }\<close>\<close>

definition stack_pool_sized :: "nat \<Rightarrow> nat \<Rightarrow> 'a stack_pool" where
  "stack_pool_sized w n = reserve n (stack_pool_default w)"

definition stack_empty :: "nat \<Rightarrow> bool" where
  "stack_empty x = (x = end_index)"

text \<open>
  \<open>std::vector::push_back\<close>: the element goes to the end; a full vector first grows to
  \<open>size + max(size, 1)\<close> slots (the doubling policy of libstdc++).
\<close>

definition push_back :: "'a node_t \<Rightarrow> 'a stack_pool \<Rightarrow> 'a stack_pool" where
  "push_back n p =
     p\<lparr>pool := pool p @ [n],
       pool_capacity :=
         (if length (pool p) < pool_capacity p then pool_capacity p
          else length (pool p) + max (length (pool p)) 1)\<rparr>"

subsection \<open>Access to the nodes\<close>

text \<open>\<open>node(x)\<close> is \<open>pool[x - 1]\<close>: the slot of index \<open>x\<close> is \<open>x - 1\<close>.\<close>

definition slot :: "nat \<Rightarrow> nat" where
  "slot x = x - 1"

definition in_pool :: "'a stack_pool \<Rightarrow> nat \<Rightarrow> bool" where
  "in_pool p x = (x \<noteq> 0 \<and> x \<le> length (pool p))"

definition node :: "'a stack_pool \<Rightarrow> nat \<Rightarrow> failure + 'a node_t" where
  "node p x = (if in_pool p x then Inr (pool p ! slot x) else Inl UndefinedBehaviour)"


definition next_of :: "'a stack_pool \<Rightarrow> nat \<Rightarrow> failure + nat" where
  "next_of p x = (case node p x of Inl e \<Rightarrow> Inl e | Inr n \<Rightarrow> Inr (node_next n))"

text \<open>The assignments \<open>value(x) = v\<close> and \<open>next(x) = y\<close> through the returned references.\<close>

definition set_value :: "nat \<Rightarrow> 'a \<Rightarrow> 'a stack_pool \<Rightarrow> failure + 'a stack_pool" where
  "set_value x v p =
     (case node p x of
        Inl e \<Rightarrow> Inl e
      | Inr n \<Rightarrow> Inr (p\<lparr>pool := (pool p)[slot x := n\<lparr>node_value := v\<rparr>]\<rparr>))"

definition set_next :: "nat \<Rightarrow> nat \<Rightarrow> 'a stack_pool \<Rightarrow> failure + 'a stack_pool" where
  "set_next x y p =
     (case node p x of
        Inl e \<Rightarrow> Inl e
      | Inr n \<Rightarrow> Inr (p\<lparr>pool := (pool p)[slot x := n\<lparr>node_next := y\<rparr>]\<rparr>))"

subsection \<open>push, pop, free_stack\<close>

text \<open>\<open>static_cast<N>(n)\<close> of a size \<open>n\<close>: the value modulo \<open>2 ^ index_bits\<close>.\<close>

definition cast_index :: "'a stack_pool \<Rightarrow> nat \<Rightarrow> nat" where
  "cast_index p n = n mod 2 ^ index_bits p"

text \<open>
  \<open>_push\<close>: with no free node the new node is appended and the index returned is the new
  size of the vector, cast to \<open>N\<close>; otherwise the first free node is taken off the free
  list and overwritten.
\<close>

definition push_impl :: "'a \<Rightarrow> nat \<Rightarrow> 'a stack_pool \<Rightarrow> failure + nat \<times> 'a stack_pool" where
  "push_impl val head p =
     (if stack_empty (free_nodes p) then
        (let p1 = push_back \<lparr>node_value = val, node_next = head\<rparr> p
         in Inr (cast_index p1 (length (pool p1)), p1))
      else
        (let tmp = free_nodes p in
         case next_of p (free_nodes p) of
           Inl e \<Rightarrow> Inl e
         | Inr nf \<Rightarrow>
             (case set_value tmp val (p\<lparr>free_nodes := nf\<rparr>) of
                Inl e \<Rightarrow> Inl e
              | Inr p2 \<Rightarrow>
                  (case set_next tmp head p2 of
                     Inl e \<Rightarrow> Inl e
                   | Inr p3 \<Rightarrow> Inr (tmp, p3)))))"

definition push :: "'a \<Rightarrow> nat \<Rightarrow> 'a stack_pool \<Rightarrow> failure + nat \<times> 'a stack_pool" where
  "push val head p = push_impl val head p"

text \<open>\<open>pop\<close>: the head goes to the front of the free list, its successor is returned.\<close>

definition pop :: "nat \<Rightarrow> 'a stack_pool \<Rightarrow> failure + nat \<times> 'a stack_pool" where
  "pop x p =
     (case next_of p x of
        Inl e \<Rightarrow> Inl e
      | Inr tmp \<Rightarrow>
          (case set_next x (free_nodes p) p of
             Inl e \<Rightarrow> Inl e
           | Inr p1 \<Rightarrow> Inr (tmp, p1\<lparr>free_nodes := x\<rparr>)))"

text \<open>
  \<open>free_stack\<close>: \<open>while (x != end()) { x = pop(x); } return x;\<close>. The loop need not end
  on every pool, so the result is an option: \<open>None\<close> is a loop that runs forever.
\<close>

partial_function (option) free_stack ::
  "nat \<Rightarrow> 'a stack_pool \<Rightarrow> (failure + nat \<times> 'a stack_pool) option" where
  "free_stack x p =
     (if x \<noteq> end_index then
        (case pop x p of
           Inl e \<Rightarrow> Some (Inl e)
         | Inr (x', p') \<Rightarrow> free_stack x' p')
      else Some (Inr (x, p)))"

subsection \<open>The iterator\<close>

text \<open>
  \<open>MyIterator\<close> holds a pointer to a pool and an index. Pools live in a store, from
  addresses to pools; a pointer is an address.
\<close>

record MyIterator =
  PoolPointer :: nat
  StackIndex :: nat




definition iter_eq :: "MyIterator \<Rightarrow> MyIterator \<Rightarrow> bool" where
  "iter_eq lhs rhs = (StackIndex lhs = StackIndex rhs)"

definition iter_neq :: "MyIterator \<Rightarrow> MyIterator \<Rightarrow> bool" where
  "iter_neq lhs rhs = (StackIndex lhs \<noteq> StackIndex rhs)"

text \<open>\<open>begin(x)\<close> and \<open>end(x)\<close> of the pool at address \<open>a\<close>.\<close>

definition begin_iter :: "nat \<Rightarrow> nat \<Rightarrow> MyIterator" where
  "begin_iter a x = \<lparr>PoolPointer = a, StackIndex = x\<rparr>"

definition end_iter :: "nat \<Rightarrow> nat \<Rightarrow> MyIterator" where
  "end_iter a x = \<lparr>PoolPointer = a, StackIndex = end_index\<rparr>"


subsection \<open>Callers\<close>


text \<open>Calling \<open>pop\<close> \<open>k\<close> times, each time on the head the call before returned.\<close>

fun pop_times :: "nat \<Rightarrow> nat \<Rightarrow> 'a stack_pool \<Rightarrow> failure + nat \<times> 'a stack_pool" where
  "pop_times 0 x p = Inr (x, p)"
| "pop_times (Suc k) x p =
     (case pop x p of
        Inl e \<Rightarrow> Inl e
      | Inr (x', p') \<Rightarrow> pop_times k x' p')"

text \<open>
  A call of the public interface with arbitrary arguments, and a sequence of calls.
  Only the pool is kept; \<open>None\<close> is a call that does not return normally (undefined
  behaviour, or a loop without end).
\<close>

datatype 'a call =
  Call_new_stack
  | Call_push 'a nat
  | Call_pop nat
  | Call_free_stack nat
  | Call_reserve nat

fun do_call :: "'a call \<Rightarrow> 'a stack_pool \<Rightarrow> 'a stack_pool option" where
  "do_call Call_new_stack p = Some p"
| "do_call (Call_push v head) p =
     (case push v head p of Inl e \<Rightarrow> None | Inr (h, p') \<Rightarrow> Some p')"
| "do_call (Call_pop x) p =
     (case pop x p of Inl e \<Rightarrow> None | Inr (h, p') \<Rightarrow> Some p')"
| "do_call (Call_free_stack x) p =
     (case free_stack x p of
        None \<Rightarrow> None
      | Some (Inl e) \<Rightarrow> None
      | Some (Inr (h, p')) \<Rightarrow> Some p')"
| "do_call (Call_reserve n) p = Some (reserve n p)"

fun calls :: "'a call list \<Rightarrow> 'a stack_pool \<Rightarrow> 'a stack_pool option" where
  "calls [] p = Some p"
| "calls (c # cs) p = (case do_call c p of None \<Rightarrow> None | Some p' \<Rightarrow> calls cs p')"

text \<open>
  A caller that respects the contract: it holds the heads of its stacks (stack number
  \<open>i\<close> is \<open>heads ! i\<close>), passes to the pool only the current head of one of them, keeps
  the head the pool returns in its place, and pops no empty stack.
\<close>

record 'a client =
  the_pool :: "'a stack_pool"
  heads :: "nat list"

datatype 'a op =
  New_stack
  | Push 'a nat
  | Pop nat
  | Free_stack nat
  | Reserve nat

fun exec_op :: "'a op \<Rightarrow> 'a client \<Rightarrow> 'a client option" where
  "exec_op New_stack c = Some (c\<lparr>heads := heads c @ [new_stack (the_pool c)]\<rparr>)"
| "exec_op (Push v i) c =
     (if i < length (heads c) then
        (case push v (heads c ! i) (the_pool c) of
           Inl e \<Rightarrow> None
         | Inr (h, p') \<Rightarrow> Some \<lparr>the_pool = p', heads = (heads c)[i := h]\<rparr>)
      else None)"
| "exec_op (Pop i) c =
     (if i < length (heads c) \<and> \<not> stack_empty (heads c ! i) then
        (case pop (heads c ! i) (the_pool c) of
           Inl e \<Rightarrow> None
         | Inr (h, p') \<Rightarrow> Some \<lparr>the_pool = p', heads = (heads c)[i := h]\<rparr>)
      else None)"
| "exec_op (Free_stack i) c =
     (if i < length (heads c) then
        (case free_stack (heads c ! i) (the_pool c) of
           None \<Rightarrow> None
         | Some (Inl e) \<Rightarrow> None
         | Some (Inr (h, p')) \<Rightarrow> Some \<lparr>the_pool = p', heads = (heads c)[i := h]\<rparr>)
      else None)"
| "exec_op (Reserve n) c = Some (c\<lparr>the_pool := reserve n (the_pool c)\<rparr>)"


subsection \<open>Linked lists in the pool\<close>

text \<open>
  \<open>chain ns x as\<close>: following \<open>next\<close> from index \<open>x\<close> visits exactly the nodes \<open>as\<close>, all of
  them slots of the vector, and then arrives at \<open>0\<close>.
\<close>

fun chain :: "'a node_t list \<Rightarrow> nat \<Rightarrow> nat list \<Rightarrow> bool" where
  "chain ns x [] = (x = 0)"
| "chain ns x (a # as) =
     (x = a \<and> a \<noteq> 0 \<and> a \<le> length ns \<and> chain ns (node_next (ns ! slot a)) as)"


text \<open>
  \<open>separated_by c fs ss\<close>: the free list is the chain \<open>fs\<close> and stack number \<open>i\<close> of the
  caller is the chain \<open>ss ! i\<close>; no chain visits a node twice, no node of a stack is on
  the free list, and no node is on two stacks. \<open>separated c\<close>: there are such chains.
\<close>

definition separated_by :: "'a client \<Rightarrow> nat list \<Rightarrow> nat list list \<Rightarrow> bool" where
  "separated_by c fs ss =
     (chain (pool (the_pool c)) (free_nodes (the_pool c)) fs \<and>
      list_all2 (chain (pool (the_pool c))) (heads c) ss \<and>
      distinct fs \<and>
      (\<forall>i<length ss. distinct (ss ! i) \<and> set (ss ! i) \<inter> set fs = {}) \<and>
      (\<forall>i<length ss. \<forall>j<length ss. i \<noteq> j \<longrightarrow> set (ss ! i) \<inter> set (ss ! j) = {}))"

definition separated :: "'a client \<Rightarrow> bool" where
  "separated c = (\<exists>fs ss. separated_by c fs ss)"

text \<open>The caller before its first call: a new pool, default or pre-sized, and no stack.\<close>

definition client_start :: "'a stack_pool \<Rightarrow> 'a client" where
  "client_start p = \<lparr>the_pool = p, heads = []\<rparr>"


text \<open>
  A small pool for examples, with the default \<open>N\<close> of 64 bits: the stack with head 3
  holds the values 9 and 5 in the
  nodes 3 and 1, and node 2 is the only free node. A caller gets there from a new pool
  by pushing 5 onto a first stack, 6 onto a second stack, 9 onto the first stack, and
  popping the second stack.
\<close>

definition sample_pool :: "nat stack_pool" where
  "sample_pool =
     \<lparr>pool = [\<lparr>node_value = 5, node_next = 0\<rparr>, \<lparr>node_value = 6, node_next = 0\<rparr>,
              \<lparr>node_value = 9, node_next = 1\<rparr>],
      pool_capacity = 4, free_nodes = 2, index_bits = 64\<rparr>"


text \<open>The sample pool after 7 has been pushed onto its stack.\<close>

definition sample_reused :: "nat stack_pool" where
  "sample_reused =
     \<lparr>pool = [\<lparr>node_value = 5, node_next = 0\<rparr>, \<lparr>node_value = 7, node_next = 3\<rparr>,
              \<lparr>node_value = 9, node_next = 1\<rparr>],
      pool_capacity = 4, free_nodes = 0, index_bits = 64\<rparr>"

text \<open>The sample pool after its stack has been freed.\<close>

definition sample_freed :: "nat stack_pool" where
  "sample_freed =
     \<lparr>pool = [\<lparr>node_value = 5, node_next = 3\<rparr>, \<lparr>node_value = 6, node_next = 0\<rparr>,
              \<lparr>node_value = 9, node_next = 2\<rparr>],
      pool_capacity = 4, free_nodes = 1, index_bits = 64\<rparr>"







section \<open>Basic facts\<close>

subsection \<open>Slots and single calls\<close>

lemma slot_less: "x \<noteq> 0 \<Longrightarrow> x \<le> n \<Longrightarrow> slot x < n"
  by (simp add: slot_def)

lemma slot_eq_iff: "x \<noteq> 0 \<Longrightarrow> a \<noteq> 0 \<Longrightarrow> (slot a = slot x) = (a = x)"
  by (auto simp: slot_def)

lemma slot_Suc: "slot (Suc n) = n"
  by (simp add: slot_def)

lemma in_pool_slot: "in_pool p x \<Longrightarrow> slot x < length (pool p)"
  by (simp add: in_pool_def slot_less)

lemma next_of_in_pool: "in_pool p x \<Longrightarrow> next_of p x = Inr (node_next (pool p ! slot x))"
  by (simp add: next_of_def node_def)


lemma set_next_in_pool:
  "in_pool p x \<Longrightarrow>
   set_next x y p = Inr (p\<lparr>pool := (pool p)[slot x := (pool p ! slot x)\<lparr>node_next := y\<rparr>]\<rparr>)"
  by (simp add: set_next_def node_def)

lemma set_value_in_pool:
  "in_pool p x \<Longrightarrow>
   set_value x v p = Inr (p\<lparr>pool := (pool p)[slot x := (pool p ! slot x)\<lparr>node_value := v\<rparr>]\<rparr>)"
  by (simp add: set_value_def node_def)

lemma pop_in_pool:
  "in_pool p x \<Longrightarrow>
   pop x p = Inr (node_next (pool p ! slot x),
     p\<lparr>pool := (pool p)[slot x := (pool p ! slot x)\<lparr>node_next := free_nodes p\<rparr>],
       free_nodes := x\<rparr>)"
  by (simp add: pop_def next_of_in_pool set_next_in_pool)

lemma pop_outside: "\<not> in_pool p x \<Longrightarrow> pop x p = Inl UndefinedBehaviour"
  by (simp add: pop_def next_of_def node_def)

lemma push_grow:
  "free_nodes p = 0 \<Longrightarrow>
   push v h p =
     Inr (cast_index p (Suc (length (pool p))), push_back \<lparr>node_value = v, node_next = h\<rparr> p)"
  by (simp add: push_def push_impl_def stack_empty_def end_index_def push_back_def Let_def
      cast_index_def)

lemma cast_index_fits: "n < 2 ^ index_bits p \<Longrightarrow> cast_index p n = n"
  by (simp add: cast_index_def)

lemma push_grow_fits:
  "free_nodes p = 0 \<Longrightarrow> Suc (length (pool p)) < 2 ^ index_bits p \<Longrightarrow>
   push v h p = Inr (Suc (length (pool p)), push_back \<lparr>node_value = v, node_next = h\<rparr> p)"
  by (simp add: push_grow cast_index_fits)

lemma node_overwrite:
  "(n :: 'a node_t)\<lparr>node_value := v, node_next := h\<rparr> = \<lparr>node_value = v, node_next = h\<rparr>"
  by (cases n) simp

lemma push_reuse:
  assumes a: "in_pool p (free_nodes p)"
  shows "push v h p = Inr (free_nodes p,
     p\<lparr>free_nodes := node_next (pool p ! slot (free_nodes p)),
       pool := (pool p)[slot (free_nodes p) := \<lparr>node_value = v, node_next = h\<rparr>]\<rparr>)"
proof -
  let ?f = "free_nodes p"
  let ?p1 = "p\<lparr>free_nodes := node_next (pool p ! slot ?f)\<rparr>"
  let ?p2 = "?p1\<lparr>pool := (pool p)[slot ?f := (pool p ! slot ?f)\<lparr>node_value := v\<rparr>]\<rparr>"
  from a have lt: "slot ?f < length (pool p)" by (rule in_pool_slot)
  from a have nz: "?f \<noteq> 0" by (simp add: in_pool_def)
  have in1: "in_pool ?p1 ?f" and in2: "in_pool ?p2 ?f"
    using a by (simp_all add: in_pool_def)
  have s1: "set_value ?f v ?p1 = Inr ?p2"
    using set_value_in_pool [OF in1] by simp
  have s2: "set_next ?f h ?p2 =
      Inr (p\<lparr>free_nodes := node_next (pool p ! slot ?f),
        pool := (pool p)[slot ?f := \<lparr>node_value = v, node_next = h\<rparr>]\<rparr>)"
    using set_next_in_pool [OF in2] lt by (simp add: node_overwrite)
  have ne: "\<not> stack_empty ?f"
    using nz by (simp add: stack_empty_def end_index_def)
  show ?thesis
    unfolding push_def push_impl_def Let_def
    by (simp only: ne if_False next_of_in_pool [OF a] s1 s2 sum.case)
qed

lemma push_outside:
  "free_nodes p \<noteq> 0 \<Longrightarrow> \<not> in_pool p (free_nodes p) \<Longrightarrow> push v h p = Inl UndefinedBehaviour"
  by (simp add: push_def push_impl_def stack_empty_def end_index_def next_of_def node_def)

lemma nth_other:
  "x \<noteq> 0 \<Longrightarrow> a \<noteq> 0 \<Longrightarrow> a \<noteq> x \<Longrightarrow> (ns[slot x := n]) ! slot a = ns ! slot a"
  by (simp add: slot_eq_iff)

lemma chain_update:
  "x \<noteq> 0 \<Longrightarrow> x \<notin> set as \<Longrightarrow> chain (ns[slot x := n]) y as = chain ns y as"
proof (induction as arbitrary: y)
  case Nil
  show ?case by simp
next
  case (Cons a as)
  from Cons.prems have ne: "a \<noteq> x" and rest: "x \<notin> set as" by simp_all
  note ih = Cons.IH [OF Cons.prems(1) rest]
  show ?case
  proof (cases "a = 0")
    case True
    then show ?thesis by simp
  next
    case False
    have "(ns[slot x := n]) ! slot a = ns ! slot a"
      using Cons.prems(1) False ne by (rule nth_other)
    with ih False show ?thesis by (simp only: chain.simps length_list_update)
  qed
qed

lemma chain_append: "chain ns y as \<Longrightarrow> chain (ns @ ms) y as"
proof (induction as arbitrary: y)
  case Nil
  then show ?case by simp
next
  case (Cons a as)
  then have "slot a < length ns" by (simp add: slot_less)
  then have "(ns @ ms) ! slot a = ns ! slot a" by (simp add: nth_append)
  with Cons show ?case by simp
qed

lemma chain_unique: "chain ns x as \<Longrightarrow> chain ns x bs \<Longrightarrow> as = bs"
proof (induction as arbitrary: x bs)
  case Nil
  then show ?case by (cases bs) simp_all
next
  case (Cons a as)
  then show ?case by (cases bs) simp_all
qed

lemma chain_suffix:
  "chain ns x (as @ b # bs) \<Longrightarrow> chain ns (node_next (ns ! slot b)) bs"
  by (induction as arbitrary: x) auto

lemma chain_head_fresh:
  assumes "chain ns (node_next (ns ! slot a)) as"
  shows "a \<notin> set as"
proof
  assume "a \<in> set as"
  then obtain bs cs where split: "as = bs @ a # cs"
    by (auto simp: in_set_conv_decomp)
  with assms have "chain ns (node_next (ns ! slot a)) cs"
    using chain_suffix by fastforce
  with assms have "as = cs" by (rule chain_unique)
  with split show False by simp
qed

lemma chain_distinct: "chain ns x as \<Longrightarrow> distinct as"
proof (induction as arbitrary: x)
  case Nil
  show ?case by simp
next
  case (Cons a as)
  from Cons.prems have tl: "chain ns (node_next (ns ! slot a)) as" by simp
  then have "a \<notin> set as" by (rule chain_head_fresh)
  moreover from tl have "distinct as" by (rule Cons.IH)
  ultimately show ?case by simp
qed

lemma chain_bounds: "chain ns x as \<Longrightarrow> a \<in> set as \<Longrightarrow> a \<noteq> 0 \<and> a \<le> length ns"
  by (induction as arbitrary: x) auto

lemma chain_zero: "chain ns 0 as = (as = [])"
  by (cases as) auto

lemma chain_nonzero:
  "x \<noteq> 0 \<Longrightarrow> chain ns x as \<Longrightarrow> \<exists>bs. as = x # bs \<and> x \<le> length ns \<and> chain ns (node_next (ns ! slot x)) bs"
  by (cases as) simp_all

subsection \<open>Popping along a chain\<close>

lemma pop_chain_step:
  assumes "chain (pool p) a (a # as)"
  shows "\<exists>p1. pop a p = Inr (node_next (pool p ! slot a), p1) \<and>
           pool p1 = (pool p)[slot a := (pool p ! slot a)\<lparr>node_next := free_nodes p\<rparr>] \<and>
           free_nodes p1 = a \<and> pool_capacity p1 = pool_capacity p \<and>
           chain (pool p1) (node_next (pool p ! slot a)) as"
proof -
  from assms have nz: "a \<noteq> 0" and le: "a \<le> length (pool p)"
    and tl: "chain (pool p) (node_next (pool p ! slot a)) as" by simp_all
  from nz le have inp: "in_pool p a" by (simp add: in_pool_def)
  from tl have "a \<notin> set as" by (rule chain_head_fresh)
  with nz tl have "chain ((pool p)[slot a := (pool p ! slot a)\<lparr>node_next := free_nodes p\<rparr>])
      (node_next (pool p ! slot a)) as"
    by (simp add: chain_update)
  with pop_in_pool [OF inp] show ?thesis by simp
qed

lemma free_stack_end: "free_stack end_index p = Some (Inr (end_index, p))"
  by (subst free_stack.simps) simp

lemma free_stack_step:
  "x \<noteq> end_index \<Longrightarrow> pop x p = Inr (x', p') \<Longrightarrow> free_stack x p = free_stack x' p'"
  by (subst free_stack.simps) simp

lemma free_stack_pop_times:
  "chain (pool p) h xs \<Longrightarrow> free_stack h p = Some (pop_times (length xs) h p)"
proof (induction xs arbitrary: h p)
  case Nil
  then have "h = end_index" by (simp add: end_index_def)
  then show ?case by (simp add: free_stack_end)
next
  case (Cons a as)
  then have h: "h = a" and nz: "a \<noteq> end_index" by (simp_all add: end_index_def)
  from Cons.prems h obtain p1 where
    po: "pop a p = Inr (node_next (pool p ! slot a), p1)"
    and ch: "chain (pool p1) (node_next (pool p ! slot a)) as"
    using pop_chain_step by blast
  from Cons.IH [OF ch] free_stack_step [OF nz po] po h show ?case by simp
qed

lemma pop_times_before_end:
  "chain (pool p) h xs \<Longrightarrow> k < length xs \<Longrightarrow> \<exists>q. pop_times k h p = Inr (xs ! k, q)"
proof (induction xs arbitrary: h p k)
  case Nil
  then show ?case by simp
next
  case (Cons a as)
  then have h: "h = a" by simp
  show ?case
  proof (cases k)
    case 0
    with h show ?thesis by simp
  next
    case (Suc m)
    from Cons.prems h obtain p1 where
      po: "pop a p = Inr (node_next (pool p ! slot a), p1)"
      and ch: "chain (pool p1) (node_next (pool p ! slot a)) as"
      using pop_chain_step by blast
    from Cons.prems Suc have "m < length as" by simp
    from Cons.IH [OF ch this] po h Suc show ?thesis by simp
  qed
qed

lemma pop_times_effect:
  assumes "chain (pool p) h xs" "chain (pool p) (free_nodes p) fs" "set xs \<inter> set fs = {}"
  shows "\<exists>p'. pop_times (length xs) h p = Inr (0, p') \<and>
           chain (pool p') (free_nodes p') (rev xs @ fs) \<and>
           (\<forall>y ys. set ys \<inter> set xs = {} \<longrightarrow> chain (pool p') y ys = chain (pool p) y ys) \<and>
           pool_capacity p' = pool_capacity p \<and> length (pool p') = length (pool p)"
  using assms
proof (induction xs arbitrary: h p fs)
  case Nil
  then show ?case by simp
next
  case (Cons a as)
  then have h: "h = a" and nz: "a \<noteq> 0" and le: "a \<le> length (pool p)" by simp_all
  from Cons.prems(1) h obtain p1 where
    po: "pop a p = Inr (node_next (pool p ! slot a), p1)"
    and pl: "pool p1 = (pool p)[slot a := (pool p ! slot a)\<lparr>node_next := free_nodes p\<rparr>]"
    and fr: "free_nodes p1 = a" and cap: "pool_capacity p1 = pool_capacity p"
    and ch: "chain (pool p1) (node_next (pool p ! slot a)) as"
    using pop_chain_step by blast
  from Cons.prems(3) have afs: "a \<notin> set fs" and asfs: "set as \<inter> set fs = {}" by auto
  from ch have aas: "a \<notin> set as" using Cons.prems(1) chain_distinct by fastforce
  have sl: "slot a < length (pool p)" using nz le by (rule slot_less)
  have "chain (pool p1) (free_nodes p) fs"
    using nz afs Cons.prems(2) by (simp add: pl chain_update)
  then have fr1: "chain (pool p1) (free_nodes p1) (a # fs)"
    using nz le sl by (simp add: fr pl)
  have dj: "set as \<inter> set (a # fs) = {}" using aas asfs by auto
  from Cons.IH [OF ch fr1 dj] obtain p' where
    pt: "pop_times (length as) (node_next (pool p ! slot a)) p1 = Inr (0, p')"
    and c1: "chain (pool p') (free_nodes p') (rev as @ a # fs)"
    and f1: "\<forall>y ys. set ys \<inter> set as = {} \<longrightarrow> chain (pool p') y ys = chain (pool p1) y ys"
    and k1: "pool_capacity p' = pool_capacity p1" and l1: "length (pool p') = length (pool p1)"
    by blast
  have frame: "chain (pool p') y ys = chain (pool p) y ys" if "set ys \<inter> set (a # as) = {}" for y ys
  proof -
    from that have "set ys \<inter> set as = {}" and "a \<notin> set ys" by auto
    with f1 nz show ?thesis by (simp add: pl chain_update)
  qed
  from pt po h c1 frame k1 l1 cap pl show ?case by simp
qed

subsection \<open>Pushing onto a stack, reading a stack\<close>

lemma pop_times_end:
  "chain (pool p) h xs \<Longrightarrow> \<exists>p'. pop_times (length xs) h p = Inr (0, p')"
proof (induction xs arbitrary: h p)
  case Nil
  then show ?case by simp
next
  case (Cons a as)
  then have h: "h = a" by simp
  from Cons.prems h obtain p1 where
    po: "pop a p = Inr (node_next (pool p ! slot a), p1)"
    and ch: "chain (pool p1) (node_next (pool p ! slot a)) as"
    using pop_chain_step by blast
  from Cons.IH [OF ch] po h show ?case by simp
qed

lemma push_effect:
  assumes "chain (pool p) (free_nodes p) fs"
    and fit: "fs = [] \<longrightarrow> Suc (length (pool p)) < 2 ^ index_bits p"
  shows "\<exists>r p'. push v h p = Inr (r, p') \<and> r \<noteq> 0 \<and> r \<le> length (pool p') \<and>
           (r \<in> set fs \<or> length (pool p) < r) \<and> r \<notin> set (tl fs) \<and>
           pool p' ! slot r = \<lparr>node_value = v, node_next = h\<rparr> \<and>
           chain (pool p') (free_nodes p') (tl fs) \<and>
           (\<forall>y ys. r \<notin> set ys \<longrightarrow> chain (pool p) y ys \<longrightarrow> chain (pool p') y ys) \<and>
           (\<forall>a. a \<noteq> 0 \<longrightarrow> a \<le> length (pool p) \<longrightarrow> a \<noteq> r \<longrightarrow>
              pool p' ! slot a = pool p ! slot a) \<and>
           (fs \<noteq> [] \<longrightarrow> pool_capacity p' = pool_capacity p \<and> length (pool p') = length (pool p)) \<and>
           (fs = [] \<longrightarrow> length (pool p') = Suc (length (pool p))) \<and>
           index_bits p' = index_bits p"
proof (cases fs)
  case Nil
  with assms have fz: "free_nodes p = 0" by simp
  from Nil fit have room: "Suc (length (pool p)) < 2 ^ index_bits p" by simp
  let ?n = "\<lparr>node_value = v, node_next = h\<rparr>"
  let ?p' = "push_back ?n p"
  have pl: "pool ?p' = pool p @ [?n]" and fr: "free_nodes ?p' = 0"
    using fz by (simp_all add: push_back_def)
  have vals: "pool ?p' ! slot a = pool p ! slot a" if "a \<noteq> 0" "a \<le> length (pool p)" for a
    using slot_less [OF that] by (simp add: pl nth_append)
  have new: "pool ?p' ! slot (Suc (length (pool p))) = ?n"
    by (simp add: pl slot_Suc)
  have fra: "chain (pool ?p') y ys" if "chain (pool p) y ys" for y ys
    using that by (simp add: pl chain_append)
  have ib: "index_bits ?p' = index_bits p" by (simp add: push_back_def)
  from push_grow_fits [OF fz room, of v h] Nil new vals fra fr ib show ?thesis
    by (simp add: pl)
next
  case (Cons f fs')
  with assms have ff: "free_nodes p = f" and nz: "f \<noteq> 0" and le: "f \<le> length (pool p)"
    and tl: "chain (pool p) (node_next (pool p ! slot f)) fs'" by simp_all
  from nz le ff have inp: "in_pool p (free_nodes p)" by (simp add: in_pool_def)
  let ?n = "\<lparr>node_value = v, node_next = h\<rparr>"
  let ?p' = "p\<lparr>free_nodes := node_next (pool p ! slot f), pool := (pool p)[slot f := ?n]\<rparr>"
  have pu: "push v h p = Inr (f, ?p')" using push_reuse [OF inp, of v h] by (simp add: ff)
  have sl: "slot f < length (pool p)" using nz le by (rule slot_less)
  from tl have fresh: "f \<notin> set fs'" by (rule chain_head_fresh)
  have c1: "chain (pool ?p') (free_nodes ?p') fs'"
    using nz fresh tl by (simp add: chain_update)
  have fra: "chain (pool ?p') y ys" if "f \<notin> set ys" "chain (pool p) y ys" for y ys
    using nz that by (simp add: chain_update)
  have vals: "pool ?p' ! slot a = pool p ! slot a" if "a \<noteq> 0" "a \<noteq> f" for a
    using nz that by (simp add: nth_other)
  have new: "pool ?p' ! slot f = ?n" using sl by simp
  from pu nz le fresh new c1 fra vals Cons show ?thesis by simp
qed








subsection \<open>Sizes\<close>

lemma pop_sizes:
  "pop x p = Inr (y, p') \<Longrightarrow>
   pool_capacity p' = pool_capacity p \<and> length (pool p') = length (pool p) \<and>
   index_bits p' = index_bits p"
proof (cases "in_pool p x")
  case True
  assume "pop x p = Inr (y, p')"
  with pop_in_pool [OF True] show ?thesis by auto
next
  case False
  assume "pop x p = Inr (y, p')"
  with pop_outside [OF False] show ?thesis by simp
qed

lemma pops_sizes:
  "calls (map Call_pop xs) p = Some q \<Longrightarrow>
   pool_capacity q = pool_capacity p \<and> length (pool q) = length (pool p)"
proof (induction xs arbitrary: p)
  case Nil
  then show ?case by simp
next
  case (Cons x xs)
  then obtain y p1 where po: "pop x p = Inr (y, p1)" and rest: "calls (map Call_pop xs) p1 = Some q"
    by (auto split: sum.splits option.splits)
  from Cons.IH [OF rest] pop_sizes [OF po] show ?case by simp
qed

lemma pushes_reuse:
  "chain (pool q) (free_nodes q) fs \<Longrightarrow> length vhs \<le> length fs \<Longrightarrow>
   \<exists>r. calls (map (\<lambda>(v, h). Call_push v h) vhs) q = Some r \<and>
       pool_capacity r = pool_capacity q \<and> length (pool r) = length (pool q)"
proof (induction vhs arbitrary: q fs)
  case Nil
  then show ?case by simp
next
  case (Cons vh vhs)
  obtain v h where vh: "vh = (v, h)" by (cases vh)
  from Cons.prems(2) have ne: "fs \<noteq> []" by auto
  from ne have fit: "fs = [] \<longrightarrow> Suc (length (pool q)) < 2 ^ index_bits q" by simp
  from push_effect [OF Cons.prems(1) fit, of v h] ne obtain x q1 where
    pu: "push v h q = Inr (x, q1)" and c1: "chain (pool q1) (free_nodes q1) (tl fs)"
    and sz: "pool_capacity q1 = pool_capacity q" "length (pool q1) = length (pool q)"
    by blast
  from Cons.prems(2) have "length vhs \<le> length (tl fs)" by simp
  from Cons.IH [OF c1 this] obtain r where
    "calls (map (\<lambda>(v, h). Call_push v h) vhs) q1 = Some r"
    "pool_capacity r = pool_capacity q1" "length (pool r) = length (pool q1)"
    by blast
  with pu sz vh show ?case by simp
qed

lemma push_capacity: "push v h p = Inr (r, p') \<Longrightarrow> pool_capacity p \<le> pool_capacity p'"
proof -
  assume pu: "push v h p = Inr (r, p')"
  show ?thesis
  proof (cases "free_nodes p = 0")
    case True
    from push_grow [OF True, of v h] pu show ?thesis by (auto simp: push_back_def)
  next
    case False
    show ?thesis
    proof (cases "in_pool p (free_nodes p)")
      case True
      from push_reuse [OF True, of v h] pu show ?thesis by auto
    next
      case no: False
      from push_outside [OF False no, of v h] pu show ?thesis by simp
    qed
  qed
qed


lemma push_returns:
  assumes "chain (pool p) (free_nodes p) fs"
  shows "\<exists>r p'. push v h p = Inr (r, p')"
proof (cases "free_nodes p = 0")
  case True
  from push_grow [OF True, of v h] show ?thesis by blast
next
  case False
  from chain_nonzero [OF False assms] False have "in_pool p (free_nodes p)"
    by (auto simp: in_pool_def)
  from push_reuse [OF this, of v h] show ?thesis by blast
qed

lemmas free_stack_induct =
  free_stack.raw_induct [where xa = "(x, p)" for x p, unfolded prod.case]

lemma free_stack_sizes_aux:
  assumes "free_stack x p = Some r"
  shows "\<forall>y p'. r = Inr (y, p') \<longrightarrow>
     pool_capacity p' = pool_capacity p \<and> length (pool p') = length (pool p) \<and>
     index_bits p' = index_bits p"
proof (rule free_stack_induct
    [where P = "\<lambda>x p r. \<forall>y p'. r = Inr (y, p') \<longrightarrow>
       pool_capacity p' = pool_capacity p \<and> length (pool p') = length (pool p) \<and>
       index_bits p' = index_bits p"],
    goal_cases)
  case (1 loop x p r)
  show ?case
  proof (cases "x = end_index")
    case True
    with 1(2) show ?thesis by auto
  next
    case False
    show ?thesis
    proof (cases "pop x p")
      case (Inl e)
      with 1(2) False show ?thesis by auto
    next
      case (Inr a)
      obtain x1 p1 where a: "a = (x1, p1)" by (cases a)
      with Inr 1(2) False have "loop x1 p1 = Some r" by simp
      from 1(1) [OF this] pop_sizes [of x p x1 p1] Inr a show ?thesis by simp
    qed
  qed
qed (rule assms)

lemma free_stack_sizes:
  "free_stack x p = Some (Inr (y, p')) \<Longrightarrow>
   pool_capacity p' = pool_capacity p \<and> length (pool p') = length (pool p) \<and>
   index_bits p' = index_bits p"
  using free_stack_sizes_aux by blast

lemma do_call_capacity: "do_call c p = Some p' \<Longrightarrow> pool_capacity p \<le> pool_capacity p'"
proof (cases c)
  case Call_new_stack
  assume "do_call c p = Some p'"
  with Call_new_stack show ?thesis by simp
next
  case (Call_push v h)
  assume "do_call c p = Some p'"
  with Call_push obtain r where "push v h p = Inr (r, p')" by (auto split: sum.splits)
  then show ?thesis by (rule push_capacity)
next
  case (Call_pop x)
  assume "do_call c p = Some p'"
  with Call_pop obtain r where "pop x p = Inr (r, p')" by (auto split: sum.splits)
  from pop_sizes [OF this] show ?thesis by simp
next
  case (Call_free_stack x)
  assume "do_call c p = Some p'"
  with Call_free_stack obtain r where "free_stack x p = Some (Inr (r, p'))"
    by (auto split: sum.splits option.splits)
  from free_stack_sizes [OF this] show ?thesis by simp
next
  case (Call_reserve n)
  assume "do_call c p = Some p'"
  with Call_reserve show ?thesis by (auto simp: reserve_def split: if_splits)
qed

subsection \<open>Separation is kept by every call\<close>

lemma separated_by_update:
  assumes old: "separated_by c fs ss" and i: "i < length (heads c)"
    and f': "chain (pool p') (free_nodes p') fs'"
    and x': "chain (pool p') h' xs'"
    and others: "\<And>j. j < length (heads c) \<Longrightarrow> j \<noteq> i \<Longrightarrow> chain (pool p') (heads c ! j) (ss ! j)"
    and d1: "set xs' \<inter> set fs' = {}"
    and d2: "\<And>j. j < length (heads c) \<Longrightarrow> j \<noteq> i \<Longrightarrow>
                set (ss ! j) \<inter> set xs' = {} \<and> set (ss ! j) \<inter> set fs' = {}"
  shows "separated_by \<lparr>the_pool = p', heads = (heads c)[i := h']\<rparr> fs' (ss[i := xs'])"
proof -
  from old have len: "length ss = length (heads c)"
    and dis: "\<And>j. j < length ss \<Longrightarrow> distinct (ss ! j)"
    and pw: "\<And>j k. j < length ss \<Longrightarrow> k < length ss \<Longrightarrow> j \<noteq> k \<Longrightarrow> set (ss ! j) \<inter> set (ss ! k) = {}"
    by (auto simp: separated_by_def dest: list_all2_lengthD)
  have a: "list_all2 (chain (pool p')) ((heads c)[i := h']) (ss[i := xs'])"
    unfolding list_all2_conv_all_nth
  proof (intro conjI allI impI)
    show "length ((heads c)[i := h']) = length (ss[i := xs'])" using len by simp
  next
    fix j assume "j < length ((heads c)[i := h'])"
    then have j: "j < length (heads c)" by simp
    show "chain (pool p') ((heads c)[i := h'] ! j) (ss[i := xs'] ! j)"
    proof (cases "j = i")
      case True
      with i len x' show ?thesis by simp
    next
      case False
      with others [OF j False] show ?thesis by simp
    qed
  qed
  have b: "distinct (ss[i := xs'] ! j) \<and> set (ss[i := xs'] ! j) \<inter> set fs' = {}"
    if "j < length (ss[i := xs'])" for j
  proof (cases "j = i")
    case True
    with i len d1 chain_distinct [OF x'] show ?thesis by simp
  next
    case False
    from that len have j: "j < length (heads c)" by simp
    with False d2 [OF j False] dis [of j] len show ?thesis by simp
  qed
  have c: "set (ss[i := xs'] ! j) \<inter> set (ss[i := xs'] ! k) = {}"
    if "j < length (ss[i := xs'])" "k < length (ss[i := xs'])" "j \<noteq> k" for j k
  proof -
    from that len have j: "j < length (heads c)" and k: "k < length (heads c)" by simp_all
    show ?thesis
    proof (cases "j = i")
      case True
      with that have ki: "k \<noteq> i" by simp
      from d2 [OF k ki] True ki i len show ?thesis by auto
    next
      case ji: False
      show ?thesis
      proof (cases "k = i")
        case True
        from d2 [OF j ji] True ji i len show ?thesis by auto
      next
        case False
        with ji pw [of j k] j k len that show ?thesis by simp
      qed
    qed
  qed
  from f' a b c chain_distinct [OF f'] show ?thesis
    by (simp add: separated_by_def)
qed

lemma separated_by_nth:
  assumes "separated_by c fs ss" "i < length (heads c)"
  shows "chain (pool (the_pool c)) (heads c ! i) (ss ! i)"
    and "set (ss ! i) \<inter> set fs = {}"
    and "\<And>j. j < length (heads c) \<Longrightarrow> j \<noteq> i \<Longrightarrow> set (ss ! j) \<inter> set (ss ! i) = {}"
    and "\<And>j. j < length (heads c) \<Longrightarrow> chain (pool (the_pool c)) (heads c ! j) (ss ! j)"
    and "\<And>j. j < length (heads c) \<Longrightarrow> set (ss ! j) \<inter> set fs = {}"
    and "chain (pool (the_pool c)) (free_nodes (the_pool c)) fs"
  using assms
  by (simp_all add: separated_by_def list_all2_conv_all_nth)


lemma pop_separated:
  assumes sep: "separated_by c fs ss" and i: "i < length (heads c)" and ne: "heads c ! i \<noteq> 0"
  shows "\<exists>y p'. pop (heads c ! i) (the_pool c) = Inr (y, p') \<and>
           separated_by \<lparr>the_pool = p', heads = (heads c)[i := y]\<rparr>
             (heads c ! i # fs) (ss[i := tl (ss ! i)])"
proof -
  let ?P = "the_pool c" and ?x = "heads c ! i"
  note n = separated_by_nth [OF sep i]
  from chain_nonzero [OF ne n(1)] obtain rest where
    si: "ss ! i = ?x # rest" and le: "?x \<le> length (pool ?P)" by blast
  from n(1) si have "chain (pool ?P) ?x (?x # rest)" by simp
  from pop_chain_step [OF this] obtain p1 where
    po: "pop ?x ?P = Inr (node_next (pool ?P ! slot ?x), p1)"
    and pl: "pool p1 = (pool ?P)[slot ?x := (pool ?P ! slot ?x)\<lparr>node_next := free_nodes ?P\<rparr>]"
    and fr: "free_nodes p1 = ?x"
    and ch: "chain (pool p1) (node_next (pool ?P ! slot ?x)) rest"
    by blast
  from n(2) si have xfs: "?x \<notin> set fs" and restfs: "set rest \<inter> set fs = {}" by auto
  from chain_distinct [OF n(1)] si have xrest: "?x \<notin> set rest" by simp
  have sl: "slot ?x < length (pool ?P)" using ne le by (rule slot_less)
  have "chain (pool p1) (free_nodes ?P) fs"
    using ne xfs n(6) by (simp add: pl chain_update)
  then have f': "chain (pool p1) (free_nodes p1) (?x # fs)"
    using ne le sl by (simp add: fr pl)
  have x': "chain (pool p1) (node_next (pool ?P ! slot ?x)) (tl (ss ! i))"
    using ch si by simp
  have others: "chain (pool p1) (heads c ! j) (ss ! j)" if "j < length (heads c)" "j \<noteq> i" for j
  proof -
    from n(3) [OF that] si have "?x \<notin> set (ss ! j)" by auto
    with ne n(4) [OF that(1)] show ?thesis by (simp add: pl chain_update)
  qed
  have d1: "set (tl (ss ! i)) \<inter> set (?x # fs) = {}"
    using si xrest restfs by auto
  have d2: "set (ss ! j) \<inter> set (tl (ss ! i)) = {} \<and> set (ss ! j) \<inter> set (?x # fs) = {}"
    if "j < length (heads c)" "j \<noteq> i" for j
    using n(3) [OF that] n(5) [OF that(1)] si by auto
  from separated_by_update [OF sep i f' x' others d1 d2] po show ?thesis by blast
qed

lemma free_stack_separated:
  assumes sep: "separated_by c fs ss" and i: "i < length (heads c)"
  shows "\<exists>p'. free_stack (heads c ! i) (the_pool c) = Some (Inr (0, p')) \<and>
           separated_by \<lparr>the_pool = p', heads = (heads c)[i := 0]\<rparr>
             (rev (ss ! i) @ fs) (ss[i := []])"
proof -
  let ?P = "the_pool c" and ?x = "heads c ! i"
  note n = separated_by_nth [OF sep i]
  from pop_times_effect [OF n(1) n(6) n(2)] obtain p' where
    pt: "pop_times (length (ss ! i)) ?x ?P = Inr (0, p')"
    and f': "chain (pool p') (free_nodes p') (rev (ss ! i) @ fs)"
    and fra: "\<forall>y ys. set ys \<inter> set (ss ! i) = {} \<longrightarrow> chain (pool p') y ys = chain (pool ?P) y ys"
    by blast
  from free_stack_pop_times [OF n(1)] pt have fs: "free_stack ?x ?P = Some (Inr (0, p'))" by simp
  have x': "chain (pool p') 0 []" by simp
  have others: "chain (pool p') (heads c ! j) (ss ! j)" if "j < length (heads c)" "j \<noteq> i" for j
    using fra n(3) [OF that] n(4) [OF that(1)] by blast
  have d1: "set [] \<inter> set (rev (ss ! i) @ fs) = {}" by simp
  have d2: "set (ss ! j) \<inter> set [] = {} \<and> set (ss ! j) \<inter> set (rev (ss ! i) @ fs) = {}"
    if "j < length (heads c)" "j \<noteq> i" for j
    using n(3) [OF that] n(5) [OF that(1)] by auto
  from separated_by_update [OF sep i f' x' others d1 d2] fs show ?thesis by blast
qed










text \<open>A caller that respects the contract never sees a call fail.\<close>

lemma exec_op_progress:
  assumes "separated c"
  shows "exec_op New_stack c \<noteq> None"
    and "i < length (heads c) \<Longrightarrow> exec_op (Push v i) c \<noteq> None"
    and "i < length (heads c) \<Longrightarrow> heads c ! i \<noteq> 0 \<Longrightarrow> exec_op (Pop i) c \<noteq> None"
    and "i < length (heads c) \<Longrightarrow> exec_op (Free_stack i) c \<noteq> None"
    and "exec_op (Reserve n) c \<noteq> None"
proof -
  from assms obtain fs ss where sep: "separated_by c fs ss"
    by (auto simp: separated_def)
  show "exec_op New_stack c \<noteq> None" and "exec_op (Reserve n) c \<noteq> None" by simp_all
  show "exec_op (Push v i) c \<noteq> None" if i: "i < length (heads c)"
    using push_returns [OF separated_by_nth(6) [OF sep i], of v "heads c ! i"] i by auto
  show "exec_op (Pop i) c \<noteq> None" if i: "i < length (heads c)" and ne: "heads c ! i \<noteq> 0"
    using pop_separated [OF sep i ne] i ne by (auto simp: stack_empty_def end_index_def)
  show "exec_op (Free_stack i) c \<noteq> None" if i: "i < length (heads c)"
    using free_stack_separated [OF sep i] i by auto
qed

subsection \<open>Evaluation\<close>

lemmas run_simps =
  push_def push_impl_def stack_empty_def end_index_def push_back_def pop_def next_of_def
  set_next_def set_value_def node_def in_pool_def slot_def reserve_def new_stack_def
  stack_pool_default_def stack_pool_sized_def client_start_def sample_pool_def cast_index_def

lemma sample_pool_free: "in_pool sample_pool (free_nodes sample_pool)"
  by (simp add: sample_pool_def in_pool_def)

lemma sample_push: "push 7 3 sample_pool = Inr (2, sample_reused)"
  by (simp add: run_simps sample_reused_def)










section \<open>Properties\<close>













text \<open>
  C5. On the head \<open>h\<close> of a stack with the nodes \<open>xs\<close>, \<open>free_stack\<close> returns \<open>0\<close> and
  the pool that \<open>length xs\<close> calls of \<open>pop\<close> on the successive heads leave; these calls
  return \<open>0\<close> at the last call and not before; and \<open>0\<close> is an empty stack.
\<close>

theorem free_stack_as_pops:
  assumes "chain (pool p) h xs"
  shows "\<exists>p'. free_stack h p = Some (Inr (end_index, p')) \<and>
           pop_times (length xs) h p = Inr (end_index, p') \<and>
           (\<forall>k<length xs. \<exists>x q. pop_times k h p = Inr (x, q) \<and> x \<noteq> end_index) \<and>
           stack_empty end_index"
proof -
  from pop_times_end [OF assms] obtain p' where
    pt: "pop_times (length xs) h p = Inr (0, p')" ..
  have early: "\<exists>x q. pop_times k h p = Inr (x, q) \<and> x \<noteq> end_index" if "k < length xs" for k
  proof -
    from pop_times_before_end [OF assms that] obtain q where
      "pop_times k h p = Inr (xs ! k, q)" ..
    moreover from that have "xs ! k \<in> set xs" by simp
    with assms have "xs ! k \<noteq> 0" using chain_bounds by blast
    ultimately show ?thesis by (simp add: end_index_def)
  qed
  from free_stack_pop_times [OF assms] pt early show ?thesis
    by (simp add: end_index_def stack_empty_def)
qed

theorem free_stack_as_pops_witness:
  "chain (pool sample_pool) 3 [3, 1] \<and>
   free_stack 3 sample_pool = Some (Inr (0, sample_freed)) \<and>
   pop_times 2 3 sample_pool = Inr (0, sample_freed) \<and>
   stack_empty 0"
proof -
  have h: "chain (pool sample_pool) 3 [3, 1]"
    by (simp add: sample_pool_def slot_def)
  have e: "pop_times 2 3 sample_pool = Inr (0, sample_freed)"
    by (simp add: run_simps sample_freed_def numeral_2_eq_2)
  have l: "length [3, 1 :: nat] = 2" by simp
  from free_stack_as_pops [OF h]
  have "\<exists>p'. free_stack 3 sample_pool = Some (Inr (end_index, p')) \<and>
      pop_times 2 3 sample_pool = Inr (end_index, p') \<and> stack_empty end_index"
    unfolding l by blast
  with e have "free_stack 3 sample_pool = Some (Inr (0, sample_freed)) \<and> stack_empty 0"
    by (auto simp: end_index_def)
  with h e show ?thesis by simp
qed



text \<open>
  C7. Two iterators are equal exactly when their indices are equal, whatever pools they
  point to; \<open>!=\<close> is the negation of \<open>==\<close>; two end iterators are always equal.
\<close>

theorem iterator_equality:
  "iter_eq lhs rhs = (StackIndex lhs = StackIndex rhs) \<and>
   iter_neq lhs rhs = (\<not> iter_eq lhs rhs) \<and>
   iter_eq (begin_iter a i) (begin_iter b j) = (i = j) \<and>
   iter_eq (end_iter a x) (end_iter b y)"
  by (simp add: iter_eq_def iter_neq_def begin_iter_def end_iter_def)

text \<open>
  C8. After \<open>m\<close> calls of \<open>pop\<close>, on any handles, \<open>m\<close> calls of \<open>push\<close>, of any values onto
  any heads, with \<open>m\<close> at most the length of the free list when they begin, all succeed
  and leave the capacity, and the length of the storage, as they were before the pops.
\<close>

theorem recycling_keeps_capacity:
  assumes "calls (map Call_pop xs) p = Some q"
    and "chain (pool q) (free_nodes q) fs"
    and "length vhs = length xs"
    and "length vhs \<le> length fs"
  shows "\<exists>r. calls (map (\<lambda>(v, h). Call_push v h) vhs) q = Some r \<and>
           capacity r = capacity p \<and> length (pool r) = length (pool p)"
proof -
  from pushes_reuse [OF assms(2) assms(4)] obtain r where
    "calls (map (\<lambda>(v, h). Call_push v h) vhs) q = Some r"
    "pool_capacity r = pool_capacity q" "length (pool r) = length (pool q)"
    by blast
  with pops_sizes [OF assms(1)] show ?thesis by (simp add: capacity_def)
qed

theorem recycling_keeps_capacity_witness:
  "calls (map Call_pop [3, 1]) sample_pool = Some sample_freed \<and>
   chain (pool sample_freed) (free_nodes sample_freed) [1, 3, 2] \<and>
   (\<exists>r. calls (map (\<lambda>(v, h). Call_push v h) [(7, 0), (8, 1)]) sample_freed = Some r \<and>
      capacity r = capacity sample_pool \<and> length (pool r) = length (pool sample_pool))"
proof -
  have e: "calls (map Call_pop [3, 1]) sample_pool = Some sample_freed"
    by (simp add: run_simps sample_freed_def)
  have h: "chain (pool sample_freed) (free_nodes sample_freed) [1, 3, 2]"
    by (simp add: sample_freed_def slot_def)
  have l: "length [(7, 0), (8, 1 :: nat)] = length [3, 1 :: nat]" by simp
  have m: "length [(7, 0), (8, 1 :: nat)] \<le> length [1, 3, 2 :: nat]" by simp
  from e h recycling_keeps_capacity [OF e h l m] show ?thesis by simp
qed

text \<open>
  C9. Over any sequence of calls, with any arguments, that return, the capacity does
  not decrease; a \<open>reserve\<close> below the capacity is among them.
\<close>

theorem capacity_never_shrinks:
  "calls cs p = Some p' \<Longrightarrow> capacity p \<le> capacity p'"
proof (induction cs arbitrary: p)
  case Nil
  then show ?case by simp
next
  case (Cons c cs)
  then obtain p1 where c1: "do_call c p = Some p1" and rest: "calls cs p1 = Some p'"
    by (auto split: option.splits)
  from do_call_capacity [OF c1] Cons.IH [OF rest] show ?case by (simp add: capacity_def)
qed

theorem capacity_never_shrinks_witness:
  "calls [Call_reserve 3, Call_push 5 0, Call_push 6 1, Call_reserve 1, Call_new_stack,
      Call_free_stack 2, Call_pop 1] (stack_pool_default 64) =
     Some \<lparr>pool = [\<lparr>node_value = 5 :: nat, node_next = 1\<rparr>, \<lparr>node_value = 6, node_next = 0\<rparr>],
       pool_capacity = 3, free_nodes = 1, index_bits = 64\<rparr> \<and>
   capacity (stack_pool_default 64 :: nat stack_pool) \<le>
     capacity \<lparr>pool = [\<lparr>node_value = 5 :: nat, node_next = 1\<rparr>, \<lparr>node_value = 6, node_next = 0\<rparr>],
       pool_capacity = 3, free_nodes = 1, index_bits = 64\<rparr>"
proof -
  have e: "calls [Call_reserve 3, Call_push 5 0, Call_push 6 1, Call_reserve 1, Call_new_stack,
      Call_free_stack 2, Call_pop 1] (stack_pool_default 64) =
     Some \<lparr>pool = [\<lparr>node_value = 5 :: nat, node_next = 1\<rparr>, \<lparr>node_value = 6, node_next = 0\<rparr>],
       pool_capacity = 3, free_nodes = 1, index_bits = 64\<rparr>"
    by (simp add: run_simps free_stack.simps)
  from e capacity_never_shrinks [OF e] show ?thesis by (rule conjI)
qed

text \<open>
  C10. When the free list starts at a node of the pool, \<open>push\<close> returns that node,
  now holding \<open>{v, h}\<close>; the free list starts at the node's former successor; every
  other node, the length of the storage and the capacity are as before.
\<close>

theorem push_reuse_frame:
  assumes "in_pool p (free_nodes p)"
  shows "\<exists>p'. push v h p = Inr (free_nodes p, p') \<and>
           length (pool p') = length (pool p) \<and>
           capacity p' = capacity p \<and>
           (\<forall>x. in_pool p x \<and> x \<noteq> free_nodes p \<longrightarrow> node p' x = node p x) \<and>
           node p' (free_nodes p) = Inr \<lparr>node_value = v, node_next = h\<rparr> \<and>
           free_nodes p' = node_next (pool p ! slot (free_nodes p))"
proof -
  let ?f = "free_nodes p"
  let ?p' = "p\<lparr>free_nodes := node_next (pool p ! slot ?f),
       pool := (pool p)[slot ?f := \<lparr>node_value = v, node_next = h\<rparr>]\<rparr>"
  have pu: "push v h p = Inr (?f, ?p')" using assms by (rule push_reuse)
  from assms have nz: "?f \<noteq> 0" by (simp add: in_pool_def)
  have others: "node ?p' x = node p x" if "in_pool p x \<and> x \<noteq> ?f" for x
  proof -
    from that have "x \<noteq> 0" by (simp add: in_pool_def)
    with nz that have "(pool p)[slot ?f := \<lparr>node_value = v, node_next = h\<rparr>] ! slot x = pool p ! slot x"
      by (simp add: nth_other)
    then show ?thesis by (simp add: node_def in_pool_def)
  qed
  have own: "node ?p' ?f = Inr \<lparr>node_value = v, node_next = h\<rparr>"
    using assms in_pool_slot [OF assms] by (simp add: node_def in_pool_def)
  from pu others own show ?thesis by (simp add: capacity_def)
qed

theorem push_reuse_frame_witness:
  "in_pool sample_pool (free_nodes sample_pool) \<and>
   push 7 3 sample_pool = Inr (2, sample_reused) \<and>
   length (pool sample_reused) = length (pool sample_pool) \<and>
   capacity sample_reused = capacity sample_pool \<and>
   node sample_reused 1 = node sample_pool 1 \<and>
   node sample_reused 3 = node sample_pool 3 \<and>
   node sample_reused 2 = Inr \<lparr>node_value = 7, node_next = 3\<rparr>"
proof -
  from push_reuse_frame [OF sample_pool_free, of 7 3]
  have f: "length (pool sample_reused) = length (pool sample_pool) \<and>
      capacity sample_reused = capacity sample_pool \<and>
      (\<forall>x. in_pool sample_pool x \<and> x \<noteq> free_nodes sample_pool \<longrightarrow>
         node sample_reused x = node sample_pool x) \<and>
      node sample_reused (free_nodes sample_pool) = Inr \<lparr>node_value = 7, node_next = 3\<rparr>"
    by (auto simp: sample_push)
  have i1: "in_pool sample_pool 1 \<and> 1 \<noteq> free_nodes sample_pool"
    and i3: "in_pool sample_pool 3 \<and> 3 \<noteq> free_nodes sample_pool"
    and fr: "free_nodes sample_pool = 2"
    by (simp_all add: sample_pool_def in_pool_def)
  from f i1 have n1: "node sample_reused 1 = node sample_pool 1" by blast
  from f i3 have n3: "node sample_reused 3 = node sample_pool 3" by blast
  from f fr have n2: "node sample_reused 2 = Inr \<lparr>node_value = 7, node_next = 3\<rparr>" by simp
  from sample_pool_free sample_push f n1 n3 n2 show ?thesis by simp
qed

end
